theory Spec2Isabelle
  imports Complex_Main
begin

section \<open>The splitter's configuration (splitter.py, class PDFSplitter)\<close>

text \<open>
  The attributes that \<open>defaultAttributes\<close> assigns are the fields of the record; the two
  signal objects are not data and appear below as the subscriber of the split loop.
  Python integers are unbounded, so the two counters are \<open>int\<close>.
\<close>

record splitter =
  input_pdf_path :: string
  output_directory_path :: string
  pages_per_pdf :: int
  compress_zip :: bool
  sub_pdf_num :: int
  cancel :: bool

definition defaultAttributes :: "splitter \<Rightarrow> splitter" where
  "defaultAttributes s =
     s\<lparr>input_pdf_path := '''',
       output_directory_path := '''',
       pages_per_pdf := 1,
       compress_zip := False,
       sub_pdf_num := 0,
       cancel := False\<rparr>"

text \<open>\<open>cancel_progress\<close> ignores its sender and keyword arguments.\<close>

definition cancel_progress :: "splitter \<Rightarrow> splitter" where
  "cancel_progress s = s\<lparr>cancel := True\<rparr>"

section \<open>Python built-ins used by the split loop\<close>

text \<open>
  The exceptions that can leave \<open>check_pdf\<close> and \<open>split_pdf\<close>. \<open>PdfReadError\<close> is
  PyPDF2's; the others are Python's own.
\<close>

datatype error =
  FileNotFoundError | PermissionError | IsADirectoryError | OSError
  | PdfReadError | ValueError | ZeroDivisionError | OverflowError

text \<open>\<open>str\<close> on an integer, as the f-string \<open>f"{self.sub_pdf_num}"\<close> formats it.\<close>

definition digit_char :: "nat \<Rightarrow> char" where
  "digit_char d = ''0123456789'' ! d"

fun str_nat :: "nat \<Rightarrow> string" where
  "str_nat n = (if n < 10 then [digit_char n] else str_nat (n div 10) @ [digit_char (n mod 10)])"

declare str_nat.simps [simp del]

definition str_int :: "int \<Rightarrow> string" where
  "str_int i = (if i < 0 then CHR ''-'' # str_nat (nat (- i)) else str_nat (nat i))"

text \<open>
  \<open>range(start, stop, step)\<close>: a zero step raises \<open>ValueError\<close>, a positive step counts up
  while below \<open>stop\<close>, a negative step counts down while above it.
\<close>

function range_up :: "int \<Rightarrow> int \<Rightarrow> int \<Rightarrow> int list" where
  "range_up start stop step =
     (if 0 < step \<and> start < stop then start # range_up (start + step) stop step else [])"
  by pat_completeness auto
termination
  by (relation "measure (\<lambda>(start, stop, step). nat (stop - start))") auto

function range_down :: "int \<Rightarrow> int \<Rightarrow> int \<Rightarrow> int list" where
  "range_down start stop step =
     (if step < 0 \<and> stop < start then start # range_down (start + step) stop step else [])"
  by pat_completeness auto
termination
  by (relation "measure (\<lambda>(start, stop, step). nat (start - stop))") auto

declare range_up.simps [simp del] range_down.simps [simp del]

definition range3 :: "int \<Rightarrow> int \<Rightarrow> int \<Rightarrow> error + int list" where
  "range3 start stop step =
     (if step = 0 then Inl ValueError
      else if 0 < step then Inr (range_up start stop step)
      else Inr (range_down start stop step))"

definition range2 :: "int \<Rightarrow> int \<Rightarrow> int list" where
  "range2 start stop = range_up start stop 1"

subsection \<open>Double-precision arithmetic of the progress value\<close>

text \<open>
  \<open>(start_page + self.pages_per_pdf) / total_pages * 100\<close> is Python's true division of
  two integers, which gives the binary64 number nearest to the quotient (ties to even),
  followed by a binary64 multiplication, rounded the same way. A finite double is kept as
  a pair \<open>(m, e)\<close> standing for \<open>m * 2 ^ e\<close>, with \<open>\<bar>m\<bar> \<le> 2 ^ 53\<close> and
  \<open>-1074 \<le> e\<close>; \<open>None\<close> stands for a result beyond the largest double.
\<close>

type_synonym double = "int \<times> int"

function bit_length :: "int \<Rightarrow> int" where
  "bit_length n = (if n \<le> 0 then 0 else 1 + bit_length (n div 2))"
  by pat_completeness auto
termination
  by (relation "measure nat") auto

declare bit_length.simps [simp del]

definition round_half_even :: "int \<Rightarrow> int \<Rightarrow> int" where
  "round_half_even num den =
     (let m0 = num div den; r = num mod den
      in if den < 2 * r \<or> (2 * r = den \<and> odd m0) then m0 + 1 else m0)"

text \<open>\<open>floor_log2 n d\<close> is the integer \<open>f\<close> with \<open>2 ^ f \<le> n / d < 2 ^ (f + 1)\<close>, for positive \<open>n\<close> and \<open>d\<close>.\<close>

definition floor_log2 :: "int \<Rightarrow> int \<Rightarrow> int" where
  "floor_log2 n d =
     (let e0 = bit_length n - bit_length d
      in if (if 0 \<le> e0 then d * 2 ^ nat e0 \<le> n else d \<le> n * 2 ^ nat (- e0))
         then e0 else e0 - 1)"

text \<open>
  The double nearest to \<open>n / d\<close>, for \<open>n\<close> not negative and \<open>d\<close> positive: 53 significant
  bits, or fewer below \<open>2 ^ -1022\<close> where the exponent stops at \<open>-1074\<close>.
\<close>

definition round_double :: "int \<Rightarrow> int \<Rightarrow> double option" where
  "round_double n d =
     (if n = 0 then Some (0, 0)
      else
        let e = max (floor_log2 n d - 52) (- 1074);
            m = (if 0 \<le> e then round_half_even n (d * 2 ^ nat e)
                 else round_half_even (n * 2 ^ nat (- e)) d)
        in if 0 \<le> e \<and> 2 ^ 1024 \<le> m * 2 ^ nat e then None else Some (m, e))"

definition signed :: "bool \<Rightarrow> int \<Rightarrow> int" where
  "signed neg m = (if neg then - m else m)"

definition int_true_divide :: "int \<Rightarrow> int \<Rightarrow> error + double" where
  "int_true_divide a b =
     (if b = 0 then Inl ZeroDivisionError
      else case round_double \<bar>a\<bar> \<bar>b\<bar> of
             None \<Rightarrow> Inl OverflowError
           | Some (m, e) \<Rightarrow> Inr (signed ((a < 0) \<noteq> (b < 0)) m, e))"

text \<open>The product of two finite doubles; \<open>None\<close> is an infinity.\<close>

definition float_mul :: "double \<Rightarrow> double \<Rightarrow> double option" where
  "float_mul x y =
     (let m = fst x * fst y; e = snd x + snd y
      in case (if 0 \<le> e then round_double (\<bar>m\<bar> * 2 ^ nat e) 1
               else round_double \<bar>m\<bar> (2 ^ nat (- e))) of
           None \<Rightarrow> None
         | Some (m', e') \<Rightarrow> Some (signed (m < 0) m', e'))"

text \<open>\<open>int(x)\<close> truncates towards zero and raises \<open>OverflowError\<close> on an infinity.\<close>

definition int_of_float :: "double option \<Rightarrow> error + int" where
  "int_of_float x =
     (case x of
        None \<Rightarrow> Inl OverflowError
      | Some (m, e) \<Rightarrow>
          Inr (if 0 \<le> e then m * 2 ^ nat e
               else signed (m < 0) (\<bar>m\<bar> div 2 ^ nat (- e))))"

text \<open>Lines 91-92 of splitter.py: the value sent with the progress signal.\<close>

definition progress_value :: "int \<Rightarrow> int \<Rightarrow> int \<Rightarrow> error + int" where
  "progress_value start_page pages_per total_pages =
     (case int_true_divide (start_page + pages_per) total_pages of
        Inl err \<Rightarrow> Inl err
      | Inr q \<Rightarrow> int_of_float (float_mul q (100, 0)))"

section \<open>Files, the PDF library and the subscriber of the progress signal\<close>

text \<open>
  What lies outside the two source files is a parameter of the model.
  \<^item> \<open>open_rb path\<close> is what opening \<open>path\<close> for reading gives: an exception, or the file's
    content, which PyPDF2 either rejects (\<open>NotPdf\<close>) or reads as a sequence of pages. The
    reader is taken to deliver page \<open>i\<close> of that sequence whenever the loop asks for it.
  \<^item> \<open>open_wb path\<close> is the exception, if any, of opening \<open>path\<close> for writing; writing the
    new document into the opened file is taken to succeed.
  \<^item> The subscriber of \<open>progress_signal\<close> is a predicate on the progress values sent so
    far in the run, the newest last: it holds when the subscriber, on receiving the newest
    value, sends \<open>cancel_signal\<close> (in app.py, when \<open>update_progress\<close> finds the progress
    dialog cancelled), which runs \<open>cancel_progress\<close>.
\<close>

datatype 'p content = NotPdf | PdfDoc "'p list"

record 'p env =
  open_rb :: "string \<Rightarrow> error + 'p content"
  open_wb :: "string \<Rightarrow> error option"

type_synonym subscriber = "int list \<Rightarrow> bool"

definition PdfReader :: "'p content \<Rightarrow> error + 'p list" where
  "PdfReader c = (case c of NotPdf \<Rightarrow> Inl PdfReadError | PdfDoc pages \<Rightarrow> Inr pages)"


section \<open>check\_pdf and split\_pdf\<close>


definition read_pdf :: "'p content \<Rightarrow> error + 'p list" where
  "read_pdf pdf = PdfReader pdf"

datatype outcome = Returned | Raised error

text \<open>
  A run of \<open>split_pdf\<close>: how it ended, the splitter's attributes, the files written (path
  and pages, in the order of writing) and the progress values sent, in order.
\<close>

record 'p run =
  outcome :: outcome
  state :: splitter
  written :: "(string \<times> 'p list) list"
  events :: "int list"

definition output_pdf_path :: "splitter \<Rightarrow> string" where
  "output_pdf_path s = output_directory_path s @ ''/'' @ str_int (sub_pdf_num s) @ ''.pdf''"

text \<open>
  The body of the \<open>for start_page in range(...)\<close> loop, lines 74-95, over the start pages
  still to come. An exception ends the run where it is raised; \<open>break\<close> ends it normally.
\<close>

fun split_loop :: "'p env \<Rightarrow> subscriber \<Rightarrow> 'p list \<Rightarrow> int list \<Rightarrow> 'p run \<Rightarrow> 'p run" where
  "split_loop env recv pages [] r = r"
| "split_loop env recv pages (start_page # rest) r =
     (let s = state r;
          total_pages = int (length pages);
          writer = map (\<lambda>page_num. pages ! nat page_num)
                     (range2 start_page (min (start_page + pages_per_pdf s) total_pages));
          path = output_pdf_path s;
          s1 = s\<lparr>sub_pdf_num := sub_pdf_num s + 1\<rparr>
      in case open_wb env path of
           Some err \<Rightarrow> r\<lparr>outcome := Raised err, state := s1\<rparr>
         | None \<Rightarrow>
             (let r1 = r\<lparr>state := s1, written := written r @ [(path, writer)]\<rparr>
              in case progress_value start_page (pages_per_pdf s1) total_pages of
                   Inl err \<Rightarrow> r1\<lparr>outcome := Raised err\<rparr>
                 | Inr progress \<Rightarrow>
                     (let sent = events r1 @ [progress];
                          s2 = (if recv sent then cancel_progress s1 else s1);
                          r2 = r1\<lparr>state := s2, events := sent\<rparr>
                      in if cancel s2 then r2 else split_loop env recv pages rest r2)))"

definition split_pdf :: "'p env \<Rightarrow> subscriber \<Rightarrow> splitter \<Rightarrow> 'p run" where
  "split_pdf env recv s =
     (let r = \<lparr>outcome = Returned, state = s, written = [], events = []\<rparr>
      in case open_rb env (input_pdf_path s) of
           Inl err \<Rightarrow> r\<lparr>outcome := Raised err\<rparr>
         | Inr input_file \<Rightarrow>
             (case read_pdf input_file of
                Inl err \<Rightarrow> r\<lparr>outcome := Raised err\<rparr>
              | Inr pages \<Rightarrow>
                  (let r1 = r\<lparr>state := s\<lparr>sub_pdf_num := 1\<rparr>\<rparr>
                   in case range3 0 (int (length pages)) (pages_per_pdf s) of
                        Inl err \<Rightarrow> r1\<lparr>outcome := Raised err\<rparr>
                      | Inr start_pages \<Rightarrow> split_loop env recv pages start_pages r1)))"

section \<open>zip\_pdf (app.py)\<close>

text \<open>
  The path functions are those of \<open>posixpath\<close>: \<open>basename\<close> is what follows the last
  slash, \<open>dirname\<close> what precedes it, without its trailing slashes unless it consists of
  slashes only; \<open>join\<close> puts one slash between its arguments. \<open>x.split(".")[0]\<close> is \<open>x\<close>
  up to its first dot.
\<close>

definition basename :: "string \<Rightarrow> string" where
  "basename p = rev (takeWhile (\<lambda>c. c \<noteq> CHR ''/'') (rev p))"

definition rstrip_sep :: "string \<Rightarrow> string" where
  "rstrip_sep p = rev (dropWhile (\<lambda>c. c = CHR ''/'') (rev p))"

definition dirname :: "string \<Rightarrow> string" where
  "dirname p =
     (let head = rev (dropWhile (\<lambda>c. c \<noteq> CHR ''/'') (rev p))
      in if head \<noteq> [] \<and> head \<noteq> replicate (length head) CHR ''/'' then rstrip_sep head
         else head)"

definition join :: "string \<Rightarrow> string \<Rightarrow> string" where
  "join a b =
     (if b \<noteq> [] \<and> hd b = CHR ''/'' then b
      else if a = [] \<or> last a = CHR ''/'' then a @ b
      else a @ ''/'' @ b)"

definition split_dot_first :: "string \<Rightarrow> string" where
  "split_dot_first x = takeWhile (\<lambda>c. c \<noteq> CHR ''.'') x"

text \<open>
  The content of the output directory when it is archived: files with their content and
  directories with their entries, in the order in which the directory is listed.
  \<open>os.walk\<close> yields, for the top directory and then for each directory below it, the
  directory's path, the names of its subdirectories and the names of its files; the model
  keeps each file's content beside its name, since \<open>zip.write\<close> reads it.
\<close>

datatype 'c node = File string 'c | Dir string "'c node list"

type_synonym 'c walk_entry = "string \<times> string list \<times> (string \<times> 'c) list"

fun os_walk :: "string \<Rightarrow> 'c node list \<Rightarrow> 'c walk_entry list"
  and walk_subdirs :: "string \<Rightarrow> 'c node list \<Rightarrow> 'c walk_entry list" where
  "os_walk top_dir entries =
     (top_dir, [name. Dir name sub \<leftarrow> entries], [(name, c). File name c \<leftarrow> entries])
     # walk_subdirs top_dir entries"
| "walk_subdirs top_dir [] = []"
| "walk_subdirs top_dir (File name c # rest) = walk_subdirs top_dir rest"
| "walk_subdirs top_dir (Dir name sub # rest) = os_walk (join top_dir name) sub @ walk_subdirs top_dir rest"

text \<open>
  The archive under construction is the list of its entries, name and content, with the
  counter \<open>progress_int\<close>. \<open>wasCanceled n\<close> is what the progress dialog answers after \<open>n\<close>
  files; \<open>break\<close> leaves the loop over the files of one directory only.
\<close>

type_synonym 'c archive = "(string \<times> 'c) list \<times> nat"

fun zip_files :: "(nat \<Rightarrow> bool) \<Rightarrow> string \<Rightarrow> (string \<times> 'c) list \<Rightarrow> 'c archive \<Rightarrow> 'c archive" where
  "zip_files wasCanceled root_dir [] z = z"
| "zip_files wasCanceled root_dir ((file_name, c) # files) z =
     (let file_path = join root_dir file_name;
          z1 = (fst z @ [(file_name, c)], snd z + 1)
      in if wasCanceled (snd z1) then z1 else zip_files wasCanceled root_dir files z1)"

text \<open>
  Lines 304-323 of app.py: the path of the archive and its entries. \<open>tree\<close> is the
  content of \<open>output_directory_path\<close>; creating the archive is taken to succeed.
\<close>

definition zip_pdf :: "(nat \<Rightarrow> bool) \<Rightarrow> 'c node list \<Rightarrow> splitter \<Rightarrow> string \<times> (string \<times> 'c) list" where
  "zip_pdf wasCanceled tree s =
     (let parent_directory = dirname (output_directory_path s);
          file_name_no_extension = split_dot_first (basename (input_pdf_path s));
          zip_path = parent_directory @ ''/'' @ basename file_name_no_extension @ ''.zip''
      in (zip_path,
          fst (foldl (\<lambda>z (root_dir, directories, files). zip_files wasCanceled root_dir files z)
                 ([], 0) (os_walk (output_directory_path s) tree))))"

section \<open>Example inputs\<close>

text \<open>
  A file system holding one document of \<open>T\<close> pages at \<open>/in/doc.pdf\<close> (page \<open>i\<close> is the
  number \<open>i\<close>) and a file that is not a PDF at \<open>/in/notes.txt\<close>, where every file can
  be written; and a splitter set up as the window sets it up, with \<open>k\<close> pages per PDF.
\<close>

definition pdf_env :: "nat \<Rightarrow> nat env" where
  "pdf_env T =
     \<lparr>open_rb = (\<lambda>path. if path = ''/in/doc.pdf'' then Inr (PdfDoc [0..<T])
                        else if path = ''/in/notes.txt'' then Inr NotPdf
                        else Inl FileNotFoundError),
      open_wb = (\<lambda>path. None)\<rparr>"

definition job :: "int \<Rightarrow> splitter" where
  "job k =
     \<lparr>input_pdf_path = ''/in/doc.pdf'', output_directory_path = ''/out'',
      pages_per_pdf = k, compress_zip = False, sub_pdf_num = 0, cancel = False\<rparr>"

text \<open>A subscriber that never cancels, and one that cancels on receiving event \<open>i\<close>.\<close>

definition never_cancels :: subscriber where
  "never_cancels sent = False"

definition cancels_at :: "nat \<Rightarrow> subscriber" where
  "cancels_at i sent = (length sent = i)"

text \<open>A document whose name has two dots, split into the directory \<open>/docs/out\<close>.\<close>

definition report_job :: splitter where
  "report_job =
     \<lparr>input_pdf_path = ''/docs/report.v2.pdf'', output_directory_path = ''/docs/out'',
      pages_per_pdf = 1, compress_zip = True, sub_pdf_num = 3, cancel = False\<rparr>"

definition not_cancelled :: "nat \<Rightarrow> bool" where
  "not_cancelled n = False"

section \<open>Properties of the double-precision arithmetic\<close>

lemma bit_length_bounds:
  "0 < n \<Longrightarrow> 1 \<le> bit_length n \<and> 2 ^ nat (bit_length n - 1) \<le> n \<and> n < 2 ^ nat (bit_length n)"
proof (induction n rule: bit_length.induct)
  case (1 n)
  show ?case
  proof (cases "n div 2 = 0")
    case True
    with "1.prems" have "n = 1" by presburger
    then show ?thesis by (simp add: bit_length.simps)
  next
    case False
    with "1.prems" have pos: "0 < n div 2" by presburger
    from "1.IH" "1.prems" pos
    have ih: "1 \<le> bit_length (n div 2)" "2 ^ nat (bit_length (n div 2) - 1) \<le> n div 2"
      "n div 2 < 2 ^ nat (bit_length (n div 2))" by simp_all
    define b where "b = bit_length (n div 2)"
    have bl: "bit_length n = 1 + b" using "1.prems" by (simp add: bit_length.simps[of n] b_def)
    have e1: "nat (1 + b - 1) = Suc (nat (b - 1))" using ih(1) by (simp add: b_def nat_diff_distrib)
    have e2: "nat (1 + b) = Suc (nat b)" using ih(1) by (simp add: b_def nat_add_distrib)
    have "2 * 2 ^ nat (b - 1) \<le> n" using ih(2) unfolding b_def[symmetric] by presburger
    moreover have "n < 2 * 2 ^ nat b" using ih(3) unfolding b_def[symmetric] by presburger
    ultimately show ?thesis using ih(1) unfolding bl e1 e2 b_def[symmetric] by simp
  qed
qed

lemma bit_length_real:
  assumes "0 < n"
  shows "2 powi (bit_length n - 1) \<le> real_of_int n" "real_of_int n < 2 powi (bit_length n)"
proof -
  from bit_length_bounds[OF assms]
  have b: "1 \<le> bit_length n" "2 ^ nat (bit_length n - 1) \<le> n" "n < 2 ^ nat (bit_length n)" by simp_all
  have "real_of_int (2 ^ nat (bit_length n - 1)) \<le> real_of_int n" using b(2) by linarith
  then show "2 powi (bit_length n - 1) \<le> real_of_int n" using b(1) by (simp add: power_int_def)
  have "real_of_int n < real_of_int (2 ^ nat (bit_length n))" using b(3) by linarith
  then show "real_of_int n < 2 powi (bit_length n)" using b(1) by (simp add: power_int_def)
qed

lemma scaled_le_real:
  "(if 0 \<le> e then d * 2 ^ nat e \<le> n else d \<le> n * 2 ^ nat (- e))
   \<longleftrightarrow> real_of_int d * 2 powi e \<le> real_of_int n"
proof (cases "0 \<le> e")
  case True
  have "(d * 2 ^ nat e \<le> n) = (real_of_int (d * 2 ^ nat e) \<le> real_of_int n)" by linarith
  then show ?thesis using True by (simp add: power_int_def)
next
  case False
  have "(d \<le> n * 2 ^ nat (- e)) = (real_of_int d \<le> real_of_int (n * 2 ^ nat (- e)))" by linarith
  then show ?thesis using False by (simp add: power_int_def field_simps)
qed

lemma floor_log2_real:
  assumes "0 < n" "0 < d"
  shows "real_of_int d * 2 powi (floor_log2 n d) \<le> real_of_int n"
    and "real_of_int n < real_of_int d * 2 powi (floor_log2 n d + 1)"
proof -
  define e0 where "e0 = bit_length n - bit_length d"
  note bn = bit_length_real[OF assms(1)]
  note bd = bit_length_real[OF assms(2)]
  have dpos: "0 < real_of_int d" using assms by simp
  have split1: "(2::real) powi (bit_length n) = 2 powi (bit_length d - 1) * 2 powi (e0 + 1)"
    by (simp add: e0_def power_int_add[symmetric])
  have split2: "(2::real) powi (bit_length n - 1) = 2 powi (bit_length d) * 2 powi (e0 - 1)"
    by (simp add: e0_def power_int_add[symmetric])
  have up: "real_of_int n < real_of_int d * 2 powi (e0 + 1)"
  proof -
    have "real_of_int n < 2 powi (bit_length d - 1) * 2 powi (e0 + 1)" using bn(2) split1 by simp
    also have "\<dots> \<le> real_of_int d * 2 powi (e0 + 1)"
      using bd(1) by (intro mult_right_mono) simp_all
    finally show ?thesis .
  qed
  have lo: "real_of_int d * 2 powi (e0 - 1) \<le> real_of_int n"
  proof -
    have "real_of_int d * 2 powi (e0 - 1) \<le> 2 powi (bit_length d) * 2 powi (e0 - 1)"
      using bd(2) by (intro mult_right_mono) simp_all
    also have "\<dots> \<le> real_of_int n" using bn(1) split2 by simp
    finally show ?thesis .
  qed
  have fl: "floor_log2 n d = (if real_of_int d * 2 powi e0 \<le> real_of_int n then e0 else e0 - 1)"
    unfolding floor_log2_def Let_def e0_def[symmetric] scaled_le_real ..
  show "real_of_int d * 2 powi (floor_log2 n d) \<le> real_of_int n"
    using lo by (simp add: fl)
  show "real_of_int n < real_of_int d * 2 powi (floor_log2 n d + 1)"
    using up by (auto simp: fl)
qed

lemma floor_log2_less:
  assumes "0 < n" "0 < d" "n < d * 2 ^ j"
  shows "floor_log2 n d < int j"
proof (rule ccontr)
  assume "\<not> floor_log2 n d < int j"
  then have le: "int j \<le> floor_log2 n d" by simp
  have "real_of_int d * 2 powi (int j) \<le> real_of_int d * 2 powi (floor_log2 n d)"
    using assms(2) le by (intro mult_left_mono power_int_increasing) simp_all
  also have "\<dots> \<le> real_of_int n" by (rule floor_log2_real(1)[OF assms(1,2)])
  finally have "real_of_int (d * 2 ^ j) \<le> real_of_int n" by simp
  then show False using assms(3) by linarith
qed

lemma round_half_even_bound:
  assumes "0 \<le> num" "0 < den" "num < k * den"
  shows "0 \<le> round_half_even num den \<and> round_half_even num den \<le> k"
proof -
  have nn: "0 \<le> num div den" using assms(1,2) by (simp add: pos_imp_zdiv_nonneg_iff)
  have "num div den * den \<le> num"
    using div_mult_mod_eq[of num den] pos_mod_sign[OF assms(2), of num] by linarith
  then have "num div den * den < k * den" using assms(3) by linarith
  then have "num div den < k" using assms(2) by (simp add: mult_less_cancel_right)
  then show ?thesis using nn by (simp add: round_half_even_def Let_def)
qed

lemma round_double_defined:
  assumes "0 < n" "0 < d" "n < d * 2 ^ j" "j \<le> 1020"
  shows "\<exists>m e. round_double n d = Some (m, e) \<and> 0 \<le> m \<and> m \<le> 2 ^ 53
           \<and> - 1074 \<le> e \<and> e \<le> int j - 53"
proof -
  define f where "f = floor_log2 n d"
  define e where "e = max (f - 52) (- 1074)"
  define m where "m = (if 0 \<le> e then round_half_even n (d * 2 ^ nat e)
                       else round_half_even (n * 2 ^ nat (- e)) d)"
  have fj: "f < int j" unfolding f_def by (rule floor_log2_less[OF assms(1-3)])
  have e_lo: "- 1074 \<le> e" and e_hi: "e \<le> int j - 53" and fe: "f + 1 \<le> e + 53"
    using fj by (simp_all add: e_def)
  have "real_of_int n < real_of_int d * 2 powi (f + 1)"
    unfolding f_def by (rule floor_log2_real(2)[OF assms(1,2)])
  also have "\<dots> \<le> real_of_int d * 2 powi (e + 53)"
    using assms(2) fe by (intro mult_left_mono power_int_increasing) simp_all
  also have "\<dots> = real_of_int d * 2 powi e * 2 ^ 53"
    by (simp add: power_int_add)
  finally have key: "real_of_int n < real_of_int d * 2 powi e * 2 ^ 53" .
  have mb: "0 \<le> m \<and> m \<le> 2 ^ 53"
  proof (cases "0 \<le> e")
    case True
    from key True have "real_of_int n < real_of_int (2 ^ 53 * (d * 2 ^ nat e))"
      by (simp add: power_int_def mult_ac)
    then have "n < 2 ^ 53 * (d * 2 ^ nat e)" by linarith
    moreover have "0 < d * 2 ^ nat e" using assms(2) by simp
    ultimately show ?thesis
      using round_half_even_bound[of n "d * 2 ^ nat e" "2 ^ 53"] assms(1) True
      by (simp add: m_def)
  next
    case False
    from key False have "real_of_int n * 2 ^ nat (- e) < real_of_int d * 2 ^ 53"
      by (simp add: power_int_def field_simps)
    then have "real_of_int (n * 2 ^ nat (- e)) < real_of_int (2 ^ 53 * d)"
      by (simp add: mult_ac)
    then have "n * 2 ^ nat (- e) < 2 ^ 53 * d" by linarith
    moreover have "0 \<le> n * 2 ^ nat (- e)" using assms(1) by simp
    ultimately show ?thesis
      using round_half_even_bound[of "n * 2 ^ nat (- e)" d "2 ^ 53"] assms(2) False
      by (simp add: m_def)
  qed
  have no_ovf: "\<not> (0 \<le> e \<and> 2 ^ 1024 \<le> m * 2 ^ nat e)"
  proof
    assume a: "0 \<le> e \<and> 2 ^ 1024 \<le> m * 2 ^ nat e"
    have "m * 2 ^ nat e \<le> 2 ^ 53 * 2 ^ nat e" using mb by (intro mult_right_mono) simp_all
    also have "\<dots> = (2::int) ^ (53 + nat e)" by (simp add: power_add)
    also have "\<dots> \<le> 2 ^ 1020" using e_hi assms(4) a by (intro power_increasing) simp_all
    also have "\<dots> < (2::int) ^ 1024" by (intro power_strict_increasing) simp_all
    finally show False using a by simp
  qed
  have "round_double n d = Some (m, e)"
    using assms(1) no_ovf
    unfolding round_double_def Let_def f_def[symmetric] e_def[symmetric] m_def[symmetric]
    by simp
  then show ?thesis using mb e_lo e_hi by blast
qed

lemma float_mul_100_defined:
  assumes "0 \<le> m" "m \<le> 2 ^ 53" "- 1074 \<le> e" "e \<le> 947"
  shows "\<exists>y. float_mul (m, e) (100, 0) = Some y"
proof (cases "m = 0")
  case True
  then show ?thesis by (simp add: float_mul_def round_double_def)
next
  case False
  with assms(1) have mpos: "0 < m" by simp
  have m100: "m * 100 < 2 ^ 60"
  proof -
    have "m * 100 \<le> 2 ^ 53 * 100" using assms(2) by (intro mult_right_mono) simp_all
    also have "\<dots> < (2::int) ^ 60" by simp
    finally show ?thesis .
  qed
  show ?thesis
  proof (cases "0 \<le> e")
    case True
    have "m * 100 * 2 ^ nat e < 2 ^ 60 * 2 ^ nat e"
      using m100 by (intro mult_strict_right_mono) simp_all
    then have lt: "m * 100 * 2 ^ nat e < 1 * 2 ^ (60 + nat e)" by (simp add: power_add)
    have pos: "0 < m * 100 * 2 ^ nat e" using mpos by simp
    have "60 + nat e \<le> 1020" using assms(4) True by simp
    from round_double_defined[OF pos _ lt this]
    obtain m' e' where "round_double (m * 100 * 2 ^ nat e) 1 = Some (m', e')" by auto
    then show ?thesis using True mpos by (simp add: float_mul_def Let_def)
  next
    case False
    have "m * 100 < 2 ^ 60 * 1" using m100 by simp
    also have "\<dots> \<le> 2 ^ 60 * 2 ^ nat (- e)" by (intro mult_left_mono) simp_all
    finally have lt: "m * 100 < 2 ^ nat (- e) * 2 ^ 60" by (simp add: mult.commute)
    have pos: "0 < m * 100" using mpos by simp
    from round_double_defined[OF pos _ lt]
    obtain m' e' where "round_double (m * 100) (2 ^ nat (- e)) = Some (m', e')" by auto
    then show ?thesis using False mpos by (simp add: float_mul_def Let_def)
  qed
qed

lemma progress_value_defined:
  assumes "0 < start_page + k" "0 < T" "start_page + k < T * 2 ^ 1000"
  shows "\<exists>p. progress_value start_page k T = Inr p"
proof -
  from round_double_defined[OF assms(1,2,3)]
  obtain m e where rd: "round_double (start_page + k) T = Some (m, e)"
    and b: "0 \<le> m" "m \<le> 2 ^ 53" "- 1074 \<le> e" "e \<le> int 1000 - 53" by auto
  have "e \<le> 947" using b(4) by simp
  from float_mul_100_defined[OF b(1,2,3) this]
  obtain y where fm: "float_mul (m, e) (100, 0) = Some y" by auto
  have "int_true_divide (start_page + k) T = Inr (m, e)"
    using assms(1,2) rd by (simp add: int_true_divide_def signed_def)
  then show ?thesis using fm
    by (cases y) (simp add: progress_value_def int_of_float_def)
qed

section \<open>Properties of the split loop\<close>

lemma range_up_one: "0 \<le> a \<Longrightarrow> range_up a b 1 = map int [nat a..<nat b]"
proof (induction "nat b - nat a" arbitrary: a)
  case 0
  then have "\<not> a < b" by linarith
  with 0 show ?case by (simp add: range_up.simps[of a])
next
  case (Suc n)
  then have lt: "a < b" by linarith
  have "n = nat b - nat (a + 1)" using Suc.hyps(2) Suc.prems by linarith
  from Suc.hyps(1)[OF this] Suc.prems
  have ih: "range_up (a + 1) b 1 = map int [nat (a + 1)..<nat b]" by simp
  have "[nat a..<nat b] = nat a # [nat (a + 1)..<nat b]"
    using lt Suc.prems by (simp add: upt_conv_Cons nat_add_distrib)
  then show ?case using lt Suc.prems ih by (simp add: range_up.simps[of a])
qed

lemma map_nth_upt_take_drop:
  "b \<le> length xs \<Longrightarrow> map ((!) xs) [a..<b] = take (b - a) (drop a xs)"
  by (rule nth_equalityI) (auto simp: min_def)

lemma writer_pages:
  assumes "0 \<le> start_page" "0 < k"
  shows "map (\<lambda>page_num. pages ! nat page_num)
           (range2 start_page (min (start_page + k) (int (length pages))))
         = take (nat k) (drop (nat start_page) pages)"
proof -
  define a where "a = nat start_page"
  define b where "b = nat (min (start_page + k) (int (length pages)))"
  have b: "b = min (a + nat k) (length pages)"
    using assms by (simp add: a_def b_def min_def nat_add_distrib) linarith
  have "map (\<lambda>page_num. pages ! nat page_num)
           (range2 start_page (min (start_page + k) (int (length pages))))
        = map ((!) pages) [a..<b]"
    using assms(1) by (simp add: range2_def range_up_one a_def b_def comp_def)
  also have "\<dots> = take (b - a) (drop a pages)"
    by (rule map_nth_upt_take_drop) (simp add: b)
  also have "\<dots> = take (nat k) (drop a pages)"
    by (simp add: b min_def)
  finally show ?thesis by (simp add: a_def)
qed

lemma range_up_chunks:
  assumes "0 < k" "T \<le> int n * k" "int n * k < T + k" "j \<le> n"
  shows "range_up (int j * k) T k = map (\<lambda>i. int i * k) [j..<n]"
  using assms(4)
proof (induction "n - j" arbitrary: j)
  case 0
  then have "j = n" by simp
  then show ?case using assms(2) by (simp add: range_up.simps[of "int n * k"])
next
  case (Suc d)
  then have lt: "j < n" by simp
  then have "int j + 1 \<le> int n" by simp
  then have "(int j + 1) * k \<le> int n * k" using assms(1) by (intro mult_right_mono) simp_all
  then have below: "int j * k < T" using assms(3) by (simp add: algebra_simps)
  have "d = n - Suc j" using Suc.hyps(2) by simp
  from Suc.hyps(1)[OF this] lt
  have ih: "range_up (int (Suc j) * k) T k = map (\<lambda>i. int i * k) [Suc j..<n]" by simp
  have step: "int j * k + k = int (Suc j) * k" by (simp add: algebra_simps)
  show ?case
    using assms(1) below lt ih unfolding step[symmetric]
    by (simp add: range_up.simps[of "int j * k"] upt_conv_Cons)
qed

lemma ceiling_chunks:
  assumes "0 < k"
  shows "int (length pages) \<le> int (nat \<lceil>real (length pages) / real_of_int k\<rceil>) * k
         \<and> int (nat \<lceil>real (length pages) / real_of_int k\<rceil>) * k < int (length pages) + k"
proof -
  define x where "x = real (length pages) / real_of_int k"
  have kpos: "0 < real_of_int k" using assms(1) by simp
  have xnn: "0 \<le> x" using kpos by (simp add: x_def)
  have up: "x \<le> real_of_int \<lceil>x\<rceil>" by (rule le_of_int_ceiling)
  then have "0 \<le> real_of_int \<lceil>x\<rceil>" using xnn by linarith
  then have cn: "0 \<le> \<lceil>x\<rceil>" by linarith
  have "x * real_of_int k \<le> real_of_int \<lceil>x\<rceil> * real_of_int k"
    using kpos up by (intro mult_right_mono) simp_all
  then have "real (length pages) \<le> real_of_int (\<lceil>x\<rceil> * k)" using kpos by (simp add: x_def)
  then have 1: "int (length pages) \<le> \<lceil>x\<rceil> * k" by linarith
  have "real_of_int \<lceil>x\<rceil> < x + 1" by linarith
  then have "real_of_int \<lceil>x\<rceil> * real_of_int k < (x + 1) * real_of_int k"
    using kpos by (intro mult_strict_right_mono) simp_all
  then have "real_of_int (\<lceil>x\<rceil> * k) < real (length pages) + real_of_int k"
    using kpos by (simp add: x_def algebra_simps)
  then have 2: "\<lceil>x\<rceil> * k < int (length pages) + k" by linarith
  show ?thesis using 1 2 cn unfolding x_def[symmetric] by simp
qed

lemma split_loop_written:
  assumes "\<forall>h. \<not> recv h" "\<forall>p. open_wb env p = None" "0 < k"
    and "int n * k < int (length pages) + k"
    and "pages_per_pdf (state r) = k" "\<not> cancel (state r)"
    and "sub_pdf_num (state r) = int j + 1" "output_directory_path (state r) = dir"
  shows "written (split_loop env recv pages (map (\<lambda>i. int i * k) [j..<n]) r)
         = written r @ map (\<lambda>i. (dir @ ''/'' @ str_int (int i + 1) @ ''.pdf'',
                                  take (nat k) (drop (i * nat k) pages))) [j..<n]"
  using assms(5-8)
proof (induction "n - j" arbitrary: j r)
  case 0
  then show ?case by simp
next
  case (Suc d)
  then have lt: "j < n" by simp
  define s1 where "s1 = (state r)\<lparr>sub_pdf_num := sub_pdf_num (state r) + 1\<rparr>"
  define cfile where "cfile = (dir @ ''/'' @ str_int (int j + 1) @ ''.pdf'',
                             take (nat k) (drop (j * nat k) pages))"
  define r1 where "r1 = r\<lparr>state := s1, written := written r @ [cfile]\<rparr>"
  have w: "map (\<lambda>page_num. pages ! nat page_num)
             (range2 (int j * k) (min (int j * k + k) (int (length pages))))
           = take (nat k) (drop (j * nat k) pages)"
    using writer_pages[of "int j * k" k pages] assms(3) by (simp add: nat_mult_distrib)
  have path: "output_pdf_path (state r) = dir @ ''/'' @ str_int (int j + 1) @ ''.pdf''"
    using Suc.prems by (simp add: output_pdf_path_def)
  have unfold: "split_loop env recv pages (map (\<lambda>i. int i * k) [j..<n]) r =
      (case progress_value (int j * k) k (int (length pages)) of
         Inl err \<Rightarrow> r1\<lparr>outcome := Raised err\<rparr>
       | Inr progress \<Rightarrow>
           split_loop env recv pages (map (\<lambda>i. int i * k) [Suc j..<n])
             (r1\<lparr>events := events r1 @ [progress]\<rparr>))"
    using lt assms(1,2) Suc.prems w path
    by (cases r) (simp add: upt_conv_Cons Let_def r1_def s1_def cfile_def split: sum.splits)
  show ?case
  proof (cases "progress_value (int j * k) k (int (length pages))")
    case (Inl err)
    have "Suc j = n"
    proof (rule ccontr)
      assume "Suc j \<noteq> n"
      with lt have "int j + 2 \<le> int n" by simp
      then have "(int j + 2) * k \<le> int n * k" using assms(3) by (intro mult_right_mono) simp_all
      then have b: "int j * k + k < int (length pages)" using assms(4) by (simp add: algebra_simps)
      have pos: "0 < int j * k + k" using assms(3) by (simp add: add_nonneg_pos)
      have "int (length pages) * 1 \<le> int (length pages) * 2 ^ 1000"
        by (intro mult_left_mono) simp_all
      then have "int j * k + k < int (length pages) * 2 ^ 1000" using b by simp
      moreover have "0 < int (length pages)" using b pos by linarith
      ultimately obtain p where "progress_value (int j * k) k (int (length pages)) = Inr p"
        using progress_value_defined[OF pos] by blast
      with Inl show False by simp
    qed
    then have "[j..<n] = [j]" by auto
    then show ?thesis using Inl unfold by (simp add: r1_def cfile_def)
  next
    case (Inr progress)
    define r2 where "r2 = r1\<lparr>events := events r1 @ [progress]\<rparr>"
    have "d = n - Suc j" using Suc.hyps(2) by simp
    from Suc.hyps(1)[OF this, of r2] Suc.prems
    have "written (split_loop env recv pages (map (\<lambda>i. int i * k) [Suc j..<n]) r2)
          = written r2 @ map (\<lambda>i. (dir @ ''/'' @ str_int (int i + 1) @ ''.pdf'',
                                   take (nat k) (drop (i * nat k) pages))) [Suc j..<n]"
      by (simp add: r2_def r1_def s1_def)
    then show ?thesis using Inr unfold lt
      by (simp add: r2_def r1_def cfile_def upt_conv_Cons)
  qed
qed

lemma split_loop_step:
  assumes "open_wb env (output_pdf_path (state r)) = None"
    and "progress_value start_page (pages_per_pdf (state r)) (int (length pages)) = Inr progress"
    and "0 \<le> start_page" "0 < pages_per_pdf (state r)"
  shows "split_loop env recv pages (start_page # rest) r =
           (let s1 = (state r)\<lparr>sub_pdf_num := sub_pdf_num (state r) + 1\<rparr>;
                sent = events r @ [progress];
                r2 = \<lparr>outcome = outcome r,
                      state = (if recv sent then cancel_progress s1 else s1),
                      written = written r @
                        [(output_pdf_path (state r),
                          take (nat (pages_per_pdf (state r))) (drop (nat start_page) pages))],
                      events = sent\<rparr>
            in if cancel (state r) \<or> recv sent then r2
               else split_loop env recv pages rest r2)"
  using assms writer_pages[OF assms(3,4), of pages]
  by (cases r) (simp add: Let_def cancel_progress_def)

lemma split_loop_cancelled:
  assumes "\<forall>p. open_wb env p = None" "0 < k"
    and "\<forall>h. length h < m \<longrightarrow> \<not> recv h"
    and "m < n \<longrightarrow> (\<forall>h. length h = m \<longrightarrow> recv h)"
    and "\<forall>i<m. progress_value (int i * k) k (int (length pages)) = Inr (prog i)"
    and "m \<le> n"
    and "pages_per_pdf (state r) = k" "\<not> cancel (state r)"
    and "sub_pdf_num (state r) = int j + 1" "output_directory_path (state r) = dir"
    and "length (events r) = j" "j < m \<or> (j = m \<and> m = n)"
  shows "outcome (split_loop env recv pages (map (\<lambda>i. int i * k) [j..<n]) r) = outcome r
       \<and> written (split_loop env recv pages (map (\<lambda>i. int i * k) [j..<n]) r)
           = written r @ map (\<lambda>i. (dir @ ''/'' @ str_int (int i + 1) @ ''.pdf'',
                                    take (nat k) (drop (i * nat k) pages))) [j..<m]
       \<and> events (split_loop env recv pages (map (\<lambda>i. int i * k) [j..<n]) r)
           = events r @ map prog [j..<m]
       \<and> sub_pdf_num (state (split_loop env recv pages (map (\<lambda>i. int i * k) [j..<n]) r))
           = int m + 1
       \<and> (m < n \<longrightarrow> cancel (state (split_loop env recv pages (map (\<lambda>i. int i * k) [j..<n]) r)))"
  using assms(7-12)
proof (induction "m - j" arbitrary: j r)
  case 0
  then have "j = n" "m = n" by auto
  then show ?case using 0 by simp
next
  case (Suc d)
  then have lt: "j < m" by simp
  with assms(6) have ltn: "j < n" by simp
  define s1 where "s1 = (state r)\<lparr>sub_pdf_num := sub_pdf_num (state r) + 1\<rparr>"
  define sent where "sent = events r @ [prog j]"
  define r2 where "r2 = \<lparr>outcome = outcome r,
                      state = (if recv sent then cancel_progress s1 else s1),
                      written = written r @
                        [(dir @ ''/'' @ str_int (int j + 1) @ ''.pdf'',
                          take (nat k) (drop (j * nat k) pages))],
                      events = sent\<rparr>"
  have pv: "progress_value (int j * k) (pages_per_pdf (state r)) (int (length pages)) = Inr (prog j)"
    using assms(5) lt Suc.prems by simp
  have unfold: "split_loop env recv pages (map (\<lambda>i. int i * k) [j..<n]) r =
      (if recv sent then r2
       else split_loop env recv pages (map (\<lambda>i. int i * k) [Suc j..<n]) r2)"
    using split_loop_step[OF _ pv, of env recv "map (\<lambda>i. int i * k) [Suc j..<n]"]
      assms(1,2) Suc.prems ltn
    by (simp add: upt_conv_Cons Let_def r2_def sent_def s1_def output_pdf_path_def
        nat_mult_distrib)
  have len: "length sent = Suc j" using Suc.prems by (simp add: sent_def)
  show ?case
  proof (cases "Suc j = m")
    case True
    then have m: "[j..<m] = [j]" by auto
    show ?thesis
    proof (cases "recv sent")
      case rs: True
      then show ?thesis using unfold m True Suc.prems
        by (simp add: r2_def sent_def s1_def cancel_progress_def)
    next
      case rs: False
      with assms(4) len True have "m = n" by (metis assms(6) le_neq_implies_less)
      with True have "[Suc j..<n] = []" by simp
      then show ?thesis using unfold m True rs Suc.prems \<open>m = n\<close>
        by (simp add: r2_def sent_def s1_def)
    qed
  next
    case False
    with lt have lt2: "Suc j < m" by simp
    then have nr: "\<not> recv sent" using assms(3) len by simp
    have "d = m - Suc j" using Suc.hyps(2) by simp
    from Suc.hyps(1)[OF this, of r2] Suc.prems lt2 nr len
    have ih: "outcome (split_loop env recv pages (map (\<lambda>i. int i * k) [Suc j..<n]) r2) = outcome r2
       \<and> written (split_loop env recv pages (map (\<lambda>i. int i * k) [Suc j..<n]) r2)
           = written r2 @ map (\<lambda>i. (dir @ ''/'' @ str_int (int i + 1) @ ''.pdf'',
                                    take (nat k) (drop (i * nat k) pages))) [Suc j..<m]
       \<and> events (split_loop env recv pages (map (\<lambda>i. int i * k) [Suc j..<n]) r2)
           = events r2 @ map prog [Suc j..<m]
       \<and> sub_pdf_num (state (split_loop env recv pages (map (\<lambda>i. int i * k) [Suc j..<n]) r2))
           = int m + 1
       \<and> (m < n \<longrightarrow> cancel (state (split_loop env recv pages (map (\<lambda>i. int i * k) [Suc j..<n]) r2)))"
      by (simp add: r2_def s1_def)
    have "[j..<m] = j # [Suc j..<m]" using lt by (simp add: upt_conv_Cons)
    then show ?thesis using unfold nr ih by (simp add: r2_def sent_def)
  qed
qed

lemma split_loop_counter:
  assumes "sub_pdf_num (state r) = 1 + int (length (written r))"
    and "outcome (split_loop env recv pages start_pages r) = Returned"
  shows "sub_pdf_num (state (split_loop env recv pages start_pages r))
         = 1 + int (length (written (split_loop env recv pages start_pages r)))"
  using assms
proof (induction start_pages arbitrary: r)
  case Nil
  then show ?case by simp
next
  case (Cons start_page rest)
  show ?case
  proof (cases "open_wb env (output_pdf_path (state r))")
    case (Some err)
    with Cons.prems(2) show ?thesis by (cases r) (simp add: Let_def)
  next
    case None
    show ?thesis
    proof (cases "progress_value start_page (pages_per_pdf (state r)) (int (length pages))")
      case (Inl err)
      with None Cons.prems(2) show ?thesis by (cases r) (simp add: Let_def)
    next
      case (Inr progress)
      define s1 where "s1 = (state r)\<lparr>sub_pdf_num := sub_pdf_num (state r) + 1\<rparr>"
      define sent where "sent = events r @ [progress]"
      define writer where "writer = map (\<lambda>page_num. pages ! nat page_num)
                     (range2 start_page (min (start_page + pages_per_pdf (state r)) (int (length pages))))"
      define r2 where "r2 = \<lparr>outcome = outcome r,
                      state = (if recv sent then cancel_progress s1 else s1),
                      written = written r @ [(output_pdf_path (state r), writer)],
                      events = sent\<rparr>"
      have unfold: "split_loop env recv pages (start_page # rest) r =
          (if cancel (state r2) then r2 else split_loop env recv pages rest r2)"
        using None Inr
        by (cases r) (simp add: Let_def r2_def sent_def s1_def writer_def cancel_progress_def)
      have inv2: "sub_pdf_num (state r2) = 1 + int (length (written r2))"
        using Cons.prems(1) by (simp add: r2_def s1_def cancel_progress_def)
      show ?thesis
      proof (cases "cancel (state r2)")
        case True
        then show ?thesis using unfold inv2 by simp
      next
        case False
        then show ?thesis using unfold Cons.IH[OF inv2] Cons.prems(2) by simp
      qed
    qed
  qed
qed

lemma split_pdf_loop:
  assumes "open_rb env (input_pdf_path s) = Inr (PdfDoc pages)" "0 < pages_per_pdf s"
  shows "split_pdf env recv s =
           split_loop env recv pages
             (map (\<lambda>i. int i * pages_per_pdf s)
                [0..<nat \<lceil>real (length pages) / real_of_int (pages_per_pdf s)\<rceil>])
             \<lparr>outcome = Returned, state = s\<lparr>sub_pdf_num := 1\<rparr>, written = [], events = []\<rparr>"
proof -
  from ceiling_chunks[OF assms(2), of pages]
  have c: "int (length pages)
             \<le> int (nat \<lceil>real (length pages) / real_of_int (pages_per_pdf s)\<rceil>) * pages_per_pdf s"
    "int (nat \<lceil>real (length pages) / real_of_int (pages_per_pdf s)\<rceil>) * pages_per_pdf s
       < int (length pages) + pages_per_pdf s" by simp_all
  from range_up_chunks[OF assms(2) c, of 0]
  have "range_up 0 (int (length pages)) (pages_per_pdf s)
        = map (\<lambda>i. int i * pages_per_pdf s)
            [0..<nat \<lceil>real (length pages) / real_of_int (pages_per_pdf s)\<rceil>]" by simp
  then show ?thesis using assms
    by (simp add: split_pdf_def read_pdf_def PdfReader_def range3_def)
qed

lemma str_nat_no_leading_zero: "0 < n \<Longrightarrow> str_nat n \<noteq> [] \<and> hd (str_nat n) \<noteq> CHR ''0''"
proof (induction n rule: str_nat.induct)
  case (1 n)
  show ?case
  proof (cases "n < 10")
    case True
    with "1.prems" have "n \<in> {1, 2, 3, 4, 5, 6, 7, 8, 9}" by auto
    then show ?thesis by (auto simp: str_nat.simps[of n] digit_char_def)
  next
    case False
    then have "0 < n div 10" by simp
    with "1.IH" False have "str_nat (n div 10) \<noteq> [] \<and> hd (str_nat (n div 10)) \<noteq> CHR ''0''" by simp
    then show ?thesis using False by (simp add: str_nat.simps[of n])
  qed
qed

lemma concat_chunks:
  "concat (map (\<lambda>i. take k (drop (i * k) xs)) [0..<n]) = take (n * k) xs"
proof (induction n)
  case 0
  then show ?case by simp
next
  case (Suc n)
  have "take (n * k + k) xs = take (n * k) xs @ take k (drop (n * k) xs)"
    by (simp add: take_add)
  then show ?case using Suc by (simp add: add.commute)
qed

lemma chunk_as_range:
  "take k (drop a xs) = map ((!) xs) [a..<min (a + k) (length xs)]"
proof -
  have "map ((!) xs) [a..<min (a + k) (length xs)]
        = take (min (a + k) (length xs) - a) (drop a xs)"
    by (rule map_nth_upt_take_drop) simp
  also have "\<dots> = take k (drop a xs)" by (simp add: min_def)
  finally show ?thesis by simp
qed

lemma split_pdf_written:
  assumes "open_rb env (input_pdf_path s) = Inr (PdfDoc pages)"
    and "1 \<le> pages_per_pdf s" and "\<not> cancel s"
    and "\<forall>sent. \<not> recv sent" and "\<forall>path. open_wb env path = None"
  shows "written (split_pdf env recv s)
         = map (\<lambda>i. (output_directory_path s @ ''/'' @ str_int (int i + 1) @ ''.pdf'',
                     take (nat (pages_per_pdf s)) (drop (i * nat (pages_per_pdf s)) pages)))
             [0..<nat \<lceil>real (length pages) / real_of_int (pages_per_pdf s)\<rceil>]"
proof -
  have k: "0 < pages_per_pdf s" using assms(2) by simp
  from ceiling_chunks[OF k, of pages]
  have c: "int (nat \<lceil>real (length pages) / real_of_int (pages_per_pdf s)\<rceil>) * pages_per_pdf s
       < int (length pages) + pages_per_pdf s" by simp
  show ?thesis
    unfolding split_pdf_loop[OF assms(1) k]
    using split_loop_written[OF assms(4,5) k c, of
        "\<lparr>outcome = Returned, state = s\<lparr>sub_pdf_num := 1\<rparr>, written = [], events = []\<rparr>"
        0 "output_directory_path s"] assms(3)
    by simp
qed

lemma run_10_4:
  "split_pdf (pdf_env 10) never_cancels (job 4) =
     \<lparr>outcome = Returned,
      state = \<lparr>input_pdf_path = ''/in/doc.pdf'', output_directory_path = ''/out'',
               pages_per_pdf = 4, compress_zip = False, sub_pdf_num = 4, cancel = False\<rparr>,
      written = [(''/out/1.pdf'', [0, 1, 2, 3]), (''/out/2.pdf'', [4, 5, 6, 7]),
                 (''/out/3.pdf'', [8, 9])],
      events = [40, 80, 120]\<rparr>"
  by code_simp

lemma run_50_29:
  "events (split_pdf (pdf_env 50) never_cancels (job 29)) = [57, 115]"
  by code_simp

lemma run_10_4_cancel_2:
  "split_pdf (pdf_env 10) (cancels_at 2) (job 4) =
     \<lparr>outcome = Returned,
      state = \<lparr>input_pdf_path = ''/in/doc.pdf'', output_directory_path = ''/out'',
               pages_per_pdf = 4, compress_zip = False, sub_pdf_num = 3, cancel = True\<rparr>,
      written = [(''/out/1.pdf'', [0, 1, 2, 3]), (''/out/2.pdf'', [4, 5, 6, 7])],
      events = [40, 80]\<rparr>"
  by code_simp

lemma run_10_4_stale:
  "split_pdf (pdf_env 10) never_cancels ((job 4)\<lparr>cancel := True\<rparr>) =
     \<lparr>outcome = Returned,
      state = \<lparr>input_pdf_path = ''/in/doc.pdf'', output_directory_path = ''/out'',
               pages_per_pdf = 4, compress_zip = False, sub_pdf_num = 2, cancel = True\<rparr>,
      written = [(''/out/1.pdf'', [0, 1, 2, 3])],
      events = [40]\<rparr>"
  by code_simp

lemma progress_value_chunk:
  assumes "1 \<le> k" "k < 2 ^ 1000" "pages \<noteq> []"
    and "i < nat \<lceil>real (length pages) / real_of_int k\<rceil>"
  shows "progress_value (int i * k) k (int (length pages))
         = Inr (projr (progress_value (int i * k) k (int (length pages))))"
proof -
  define N where "N = nat \<lceil>real (length pages) / real_of_int k\<rceil>"
  define T where "T = int (length pages)"
  have kpos: "0 < k" using assms(1) by simp
  have Tpos: "1 \<le> T" using assms(3) by (cases pages) (simp_all add: T_def)
  from ceiling_chunks[OF kpos, of pages] have c: "int N * k < T + k" by (simp add: N_def T_def)
  have "int i + 1 \<le> int N" using assms(4) unfolding N_def[symmetric] by linarith
  then have "(int i + 1) * k \<le> int N * k" using kpos by (intro mult_right_mono) simp_all
  then have le: "int i * k + k < T + k" using c by (simp add: algebra_simps)
  have "T + k \<le> T * 2 ^ 1000"
  proof -
    have "(2 ^ 1000 - 1) * 1 \<le> (2 ^ 1000 - 1) * T" using Tpos by (intro mult_left_mono) simp_all
    then have "T + (2 ^ 1000 - 1) \<le> T * 2 ^ 1000" by (simp add: algebra_simps)
    then show ?thesis using assms(2) by linarith
  qed
  then have b: "int i * k + k < T * 2 ^ 1000" using le by linarith
  have pos: "0 < int i * k + k" using kpos by (simp add: add_nonneg_pos)
  from progress_value_defined[OF pos _ b] Tpos
  obtain p where "progress_value (int i * k) k T = Inr p" by auto
  then show ?thesis by (simp add: T_def)
qed

lemma split_pdf_stops:
  assumes "open_rb env (input_pdf_path s) = Inr (PdfDoc pages)"
    and "1 \<le> pages_per_pdf s" "pages_per_pdf s < 2 ^ 1000"
    and "\<not> cancel s" and "\<forall>path. open_wb env path = None"
    and "1 \<le> m" "m \<le> nat \<lceil>real (length pages) / real_of_int (pages_per_pdf s)\<rceil>"
    and "\<forall>sent. length sent < m \<longrightarrow> \<not> recv sent"
    and "m < nat \<lceil>real (length pages) / real_of_int (pages_per_pdf s)\<rceil>
         \<longrightarrow> (\<forall>sent. length sent = m \<longrightarrow> recv sent)"
  shows "outcome (split_pdf env recv s) = Returned
       \<and> written (split_pdf env recv s)
           = map (\<lambda>i. (output_directory_path s @ ''/'' @ str_int (int i + 1) @ ''.pdf'',
                       take (nat (pages_per_pdf s)) (drop (i * nat (pages_per_pdf s)) pages)))
               [0..<m]
       \<and> events (split_pdf env recv s)
           = map (\<lambda>i. projr (progress_value (int i * pages_per_pdf s) (pages_per_pdf s)
                                (int (length pages)))) [0..<m]
       \<and> sub_pdf_num (state (split_pdf env recv s)) = int m + 1"
proof -
  define N where "N = nat \<lceil>real (length pages) / real_of_int (pages_per_pdf s)\<rceil>"
  define k where "k = pages_per_pdf s"
  have kpos: "0 < k" using assms(2) by (simp add: k_def)
  have ne: "pages \<noteq> []"
  proof
    assume "pages = []"
    then have "N = 0" by (simp add: N_def)
    with assms(6,7) show False by (simp add: N_def)
  qed
  have pv: "\<forall>i<m. progress_value (int i * k) k (int (length pages))
              = Inr (projr (progress_value (int i * k) k (int (length pages))))"
    using progress_value_chunk[OF assms(2,3) ne] assms(7) by (simp add: k_def)
  have start: "0 < m \<or> (0 = m \<and> m = N)" using assms(6) by simp
  define r0 :: "'a run" where
    "r0 = \<lparr>outcome = Returned, state = s\<lparr>sub_pdf_num := 1\<rparr>, written = [], events = []\<rparr>"
  have r0: "pages_per_pdf (state r0) = k" "\<not> cancel (state r0)"
    "sub_pdf_num (state r0) = int 0 + 1" "output_directory_path (state r0) = output_directory_path s"
    "length (events r0) = 0" "outcome r0 = Returned" "written r0 = []" "events r0 = []"
    using assms(4) by (simp_all add: r0_def k_def)
  have mN: "m \<le> N" using assms(7) by (simp add: N_def)
  have fire: "m < N \<longrightarrow> (\<forall>sent. length sent = m \<longrightarrow> recv sent)"
    using assms(9) by (simp add: N_def)
  note run = split_loop_cancelled[OF assms(5) kpos assms(8) fire pv mN r0(1-5) start]
  have "split_pdf env recv s = split_loop env recv pages (map (\<lambda>i. int i * k) [0..<N]) r0"
    using split_pdf_loop[OF assms(1) kpos[unfolded k_def]] by (simp add: N_def k_def r0_def)
  then show ?thesis using run r0(6-8) by (simp add: k_def)
qed

text \<open>Whenever a run returns, the counter is one more than the number of files written.\<close>

lemma split_pdf_counter:
  assumes "outcome (split_pdf env recv s) = Returned"
  shows "sub_pdf_num (state (split_pdf env recv s))
         = 1 + int (length (written (split_pdf env recv s)))"
proof (cases "open_rb env (input_pdf_path s)")
  case (Inl err)
  with assms show ?thesis by (simp add: split_pdf_def)
next
  case (Inr input_file)
  show ?thesis
  proof (cases "read_pdf input_file")
    case (Inl err)
    with Inr assms show ?thesis by (simp add: split_pdf_def)
  next
    case pages: (Inr pages)
    show ?thesis
    proof (cases "range3 0 (int (length pages)) (pages_per_pdf s)")
      case (Inl err)
      with Inr pages assms show ?thesis by (simp add: split_pdf_def)
    next
      case starts: (Inr start_pages)
      define r1 :: "'a run" where
        "r1 = \<lparr>outcome = Returned, state = s\<lparr>sub_pdf_num := 1\<rparr>, written = [], events = []\<rparr>"
      have eq: "split_pdf env recv s = split_loop env recv pages start_pages r1"
        using Inr pages starts by (simp add: split_pdf_def r1_def)
      have "sub_pdf_num (state r1) = 1 + int (length (written r1))" by (simp add: r1_def)
      from split_loop_counter[OF this] assms show ?thesis unfolding eq by simp
    qed
  qed
qed

section \<open>Theorems\<close>

text \<open>
  C1, as the code has it. \<open>split_pdf\<close> never clears the cancellation flag, so the count
  holds for a run that is not cancelled: the flag is clear at the start and the subscriber
  never sends \<open>cancel_signal\<close>. Such a run, on a document of \<open>T\<close> pages with \<open>k \<ge> 1\<close>
  pages per PDF and an output directory that can be written, writes exactly \<open>\<lceil>T / k\<rceil>\<close>
  files, and their paths are, in the order of writing, \<open><output_directory_path>/1.pdf\<close>,
  \<open>2.pdf\<close>, ...: the decimal number without a leading zero. With no page at all the loop
  body never runs: nothing is written, nothing is sent and the run returns normally.
\<close>

theorem C1_output_files:
  assumes "open_rb env (input_pdf_path s) = Inr (PdfDoc pages)"
    and "1 \<le> pages_per_pdf s" and "\<not> cancel s"
    and "\<forall>sent. \<not> recv sent" and "\<forall>path. open_wb env path = None"
  shows "map fst (written (split_pdf env recv s))
           = map (\<lambda>n. output_directory_path s @ ''/'' @ str_int (int n) @ ''.pdf'')
               [1..<Suc (nat \<lceil>real (length pages) / real_of_int (pages_per_pdf s)\<rceil>)]
         \<and> length (written (split_pdf env recv s))
             = nat \<lceil>real (length pages) / real_of_int (pages_per_pdf s)\<rceil>
         \<and> (\<forall>n>0. hd (str_int (int n)) \<noteq> CHR ''0'')
         \<and> (pages = [] \<longrightarrow> written (split_pdf env recv s) = []
                          \<and> events (split_pdf env recv s) = []
                          \<and> outcome (split_pdf env recv s) = Returned)"
proof -
  define N where "N = nat \<lceil>real (length pages) / real_of_int (pages_per_pdf s)\<rceil>"
  note w = split_pdf_written[OF assms, folded N_def]
  have "[1..<Suc N] = map Suc [0..<N]" by (simp add: map_Suc_upt)
  then have names: "map fst (written (split_pdf env recv s))
           = map (\<lambda>n. output_directory_path s @ ''/'' @ str_int (int n) @ ''.pdf'') [1..<Suc N]"
    by (simp add: w comp_def add.commute)
  have len: "length (written (split_pdf env recv s)) = N" by (simp add: w)
  have pad: "\<forall>n>0. hd (str_int (int n)) \<noteq> CHR ''0''"
    using str_nat_no_leading_zero by (simp add: str_int_def)
  have empty: "pages = [] \<longrightarrow> written (split_pdf env recv s) = []
                          \<and> events (split_pdf env recv s) = []
                          \<and> outcome (split_pdf env recv s) = Returned"
    using assms(1,2)
    by (simp add: split_pdf_def read_pdf_def PdfReader_def range3_def range_up.simps[of 0 0])
  show ?thesis using names len pad empty unfolding N_def by blast
qed

text \<open>The run of a 10-page document with 4 pages per PDF writes three files.\<close>

theorem C1_output_files_witness:
  "open_rb (pdf_env 10) (input_pdf_path (job 4)) = Inr (PdfDoc [0..<10])
   \<and> 1 \<le> pages_per_pdf (job 4) \<and> \<not> cancel (job 4)
   \<and> (\<forall>sent. \<not> never_cancels sent) \<and> (\<forall>path. open_wb (pdf_env 10) path = None)
   \<and> map fst (written (split_pdf (pdf_env 10) never_cancels (job 4)))
       = [''/out/1.pdf'', ''/out/2.pdf'', ''/out/3.pdf'']"
proof -
  have h: "open_rb (pdf_env 10) (input_pdf_path (job 4)) = Inr (PdfDoc [0..<10])"
    "1 \<le> pages_per_pdf (job 4)" "\<not> cancel (job 4)"
    "\<forall>sent. \<not> never_cancels sent" "\<forall>path. open_wb (pdf_env 10) path = None"
    by (simp_all add: pdf_env_def job_def never_cancels_def)
  have n: "nat \<lceil>real (length [0..<10]) / real_of_int (pages_per_pdf (job 4))\<rceil> = 3"
    by (simp add: job_def ceiling_eq_iff)
  have u: "[1..<Suc 3] = [1, 2, 3]" by (simp add: upt_conv_Cons)
  have st: "str_int 1 = ''1''" "str_int 2 = ''2''" "str_int 3 = ''3''"
    by (simp_all add: str_int_def str_nat.simps digit_char_def)
  from C1_output_files[OF h]
  have "map fst (written (split_pdf (pdf_env 10) never_cancels (job 4)))
           = map (\<lambda>n. output_directory_path (job 4) @ ''/'' @ str_int (int n) @ ''.pdf'')
               [1..<Suc (nat \<lceil>real (length [0..<10]) / real_of_int (pages_per_pdf (job 4))\<rceil>)]"
    by blast
  then have "map fst (written (split_pdf (pdf_env 10) never_cancels (job 4)))
       = [''/out/1.pdf'', ''/out/2.pdf'', ''/out/3.pdf'']"
    unfolding n u by (simp add: st job_def)
  with h show ?thesis by blast
qed

text \<open>
  C1 as stated gives \<open>\<lceil>T / k\<rceil>\<close> files for every document and every \<open>k \<ge> 1\<close>. When the
  flag is still set from an earlier, cancelled run, a 10-page document with \<open>k = 4\<close> gives
  one file, not three.
\<close>

theorem C1_stale_flag_counterexample:
  "length (written (split_pdf (pdf_env 10) never_cancels ((job 4)\<lparr>cancel := True\<rparr>)))
   \<noteq> nat \<lceil>(10::real) / 4\<rceil>"
proof -
  have "nat \<lceil>(10::real) / 4\<rceil> = 3" by (simp add: ceiling_eq_iff)
  then show ?thesis by (simp add: run_10_4_stale)
qed

text \<open>
  C2, as the code has it. In a run that is not cancelled (the flag clear at the start, the
  subscriber never sending \<open>cancel_signal\<close>) the file numbered \<open>n + 1\<close> holds the pages
  with the indices \<open>n * k, ..., min (n * k + k) T - 1\<close> of the source, in that order. So the
  pages of the files, taken in the order of the file numbers, are the pages of the source;
  no file has more than \<open>k\<close> pages and every file but the last has exactly \<open>k\<close>.
\<close>

theorem C2_chunks_partition:
  assumes "open_rb env (input_pdf_path s) = Inr (PdfDoc pages)"
    and "1 \<le> pages_per_pdf s" and "\<not> cancel s"
    and "\<forall>sent. \<not> recv sent" and "\<forall>path. open_wb env path = None"
  shows "written (split_pdf env recv s)
           = map (\<lambda>n. (output_directory_path s @ ''/'' @ str_int (int n + 1) @ ''.pdf'',
                       map ((!) pages)
                         [n * nat (pages_per_pdf s)
                          ..<min (n * nat (pages_per_pdf s) + nat (pages_per_pdf s)) (length pages)]))
               [0..<nat \<lceil>real (length pages) / real_of_int (pages_per_pdf s)\<rceil>]
         \<and> concat (map snd (written (split_pdf env recv s))) = pages
         \<and> (\<forall>f \<in> set (written (split_pdf env recv s)). length (snd f) \<le> nat (pages_per_pdf s))
         \<and> (\<forall>f \<in> set (butlast (written (split_pdf env recv s))).
               length (snd f) = nat (pages_per_pdf s))"
proof -
  define N where "N = nat \<lceil>real (length pages) / real_of_int (pages_per_pdf s)\<rceil>"
  define k where "k = nat (pages_per_pdf s)"
  have kpos: "0 < pages_per_pdf s" using assms(2) by simp
  have ik: "int k = pages_per_pdf s" using kpos by (simp add: k_def)
  from ceiling_chunks[OF kpos, of pages]
  have "int (length pages) \<le> int N * int k" "int N * int k < int (length pages) + int k"
    by (simp_all add: N_def ik)
  then have cover: "length pages \<le> N * k" and tight: "N * k < length pages + k"
    by (metis of_nat_mult of_nat_le_iff, metis of_nat_mult of_nat_add of_nat_less_iff)
  note w = split_pdf_written[OF assms, folded N_def k_def]
  have chunks: "written (split_pdf env recv s)
           = map (\<lambda>n. (output_directory_path s @ ''/'' @ str_int (int n + 1) @ ''.pdf'',
                       map ((!) pages) [n * k..<min (n * k + k) (length pages)])) [0..<N]"
    by (simp add: w chunk_as_range)
  have "concat (map snd (written (split_pdf env recv s))) = take (N * k) pages"
    by (simp add: w comp_def concat_chunks)
  then have whole: "concat (map snd (written (split_pdf env recv s))) = pages"
    using cover by simp
  have most: "\<forall>f \<in> set (written (split_pdf env recv s)). length (snd f) \<le> k"
    by (auto simp: w)
  have bl: "butlast [0..<N] = [0..<N - 1]" by (cases N) simp_all
  have "butlast (written (split_pdf env recv s))
        = map (\<lambda>i. (output_directory_path s @ ''/'' @ str_int (int i + 1) @ ''.pdf'',
                     take k (drop (i * k) pages))) [0..<N - 1]"
    by (simp add: w map_butlast[symmetric] bl)
  moreover have "length (take k (drop (i * k) pages)) = k" if "i < N - 1" for i
  proof -
    from that have "Suc (Suc i) \<le> N" by simp
    then have "Suc (Suc i) * k \<le> N * k" by (rule mult_le_mono1)
    then have "i * k + k \<le> length pages" using tight by simp
    then show ?thesis by simp
  qed
  ultimately have full: "\<forall>f \<in> set (butlast (written (split_pdf env recv s))). length (snd f) = k"
    by auto
  show ?thesis using chunks whole most full unfolding N_def k_def by blast
qed

text \<open>The same run: the three files together hold pages 0 to 9 in order.\<close>

theorem C2_chunks_partition_witness:
  "open_rb (pdf_env 10) (input_pdf_path (job 4)) = Inr (PdfDoc [0..<10])
   \<and> 1 \<le> pages_per_pdf (job 4) \<and> \<not> cancel (job 4)
   \<and> (\<forall>sent. \<not> never_cancels sent) \<and> (\<forall>path. open_wb (pdf_env 10) path = None)
   \<and> concat (map snd (written (split_pdf (pdf_env 10) never_cancels (job 4)))) = [0..<10]"
proof -
  have h: "open_rb (pdf_env 10) (input_pdf_path (job 4)) = Inr (PdfDoc [0..<10])"
    "1 \<le> pages_per_pdf (job 4)" "\<not> cancel (job 4)"
    "\<forall>sent. \<not> never_cancels sent" "\<forall>path. open_wb (pdf_env 10) path = None"
    by (simp_all add: pdf_env_def job_def never_cancels_def)
  from C2_chunks_partition[OF h]
  have "concat (map snd (written (split_pdf (pdf_env 10) never_cancels (job 4)))) = [0..<10]"
    by blast
  with h show ?thesis by blast
qed

text \<open>
  C2 as stated has the output files reproduce the source for every document and every
  \<open>k \<ge> 1\<close>. When the flag is still set from an earlier, cancelled run, the files of a
  10-page document with \<open>k = 4\<close> hold pages 0 to 3 only.
\<close>

theorem C2_stale_flag_counterexample:
  "concat (map snd (written (split_pdf (pdf_env 10) never_cancels ((job 4)\<lparr>cancel := True\<rparr>))))
   \<noteq> [0..<10]"
proof
  assume "concat (map snd (written (split_pdf (pdf_env 10) never_cancels
            ((job 4)\<lparr>cancel := True\<rparr>)))) = [0..<10]"
  then have "length (concat (map snd (written (split_pdf (pdf_env 10) never_cancels
            ((job 4)\<lparr>cancel := True\<rparr>))))) = length [0..<10]"
    by (rule arg_cong)
  then show False by (simp add: run_10_4_stale)
qed

text \<open>
  C3, as the code has it. In a run that is not cancelled, on a document with at least
  one page and fewer than \<open>2 ^ 1000\<close> pages per PDF (beyond that the division overflows),
  every chunk sends exactly one progress value, in the order of the chunks, and the run
  returns normally. The value sent for the chunk starting at \<open>start_page\<close> is
  \<open>progress_value start_page k T\<close>: \<open>int()\<close> of the double-precision product of the
  double-precision quotient \<open>(start_page + k) / T\<close> and 100. A 10-page document with
  \<open>k = 4\<close> sends 40, 80, 120, the last one above 100.
\<close>

theorem C3_progress_events:
  assumes "open_rb env (input_pdf_path s) = Inr (PdfDoc pages)" and "pages \<noteq> []"
    and "1 \<le> pages_per_pdf s" and "pages_per_pdf s < 2 ^ 1000" and "\<not> cancel s"
    and "\<forall>sent. \<not> recv sent" and "\<forall>path. open_wb env path = None"
  shows "outcome (split_pdf env recv s) = Returned
       \<and> length (events (split_pdf env recv s)) = length (written (split_pdf env recv s))
       \<and> length (events (split_pdf env recv s))
           = nat \<lceil>real (length pages) / real_of_int (pages_per_pdf s)\<rceil>
       \<and> (\<forall>i < nat \<lceil>real (length pages) / real_of_int (pages_per_pdf s)\<rceil>.
             progress_value (int i * pages_per_pdf s) (pages_per_pdf s) (int (length pages))
             = Inr (events (split_pdf env recv s) ! i))
       \<and> events (split_pdf (pdf_env 10) never_cancels (job 4)) = [40, 80, 120]"
proof -
  define N where "N = nat \<lceil>real (length pages) / real_of_int (pages_per_pdf s)\<rceil>"
  have kpos: "0 < pages_per_pdf s" using assms(3) by simp
  have "1 \<le> N"
  proof (rule ccontr)
    assume "\<not> 1 \<le> N"
    then have "N = 0" by simp
    with ceiling_chunks[OF kpos, of pages, folded N_def] assms(2) show False by simp
  qed
  moreover have "\<forall>sent. length sent < N \<longrightarrow> \<not> recv sent" using assms(6) by simp
  ultimately have run: "outcome (split_pdf env recv s) = Returned
       \<and> written (split_pdf env recv s)
           = map (\<lambda>i. (output_directory_path s @ ''/'' @ str_int (int i + 1) @ ''.pdf'',
                       take (nat (pages_per_pdf s)) (drop (i * nat (pages_per_pdf s)) pages)))
               [0..<N]
       \<and> events (split_pdf env recv s)
           = map (\<lambda>i. projr (progress_value (int i * pages_per_pdf s) (pages_per_pdf s)
                                (int (length pages)))) [0..<N]
       \<and> sub_pdf_num (state (split_pdf env recv s)) = int N + 1"
    using split_pdf_stops[OF assms(1,3,4,5,7), of N recv] by (simp add: N_def)
  have each: "\<forall>i<N. progress_value (int i * pages_per_pdf s) (pages_per_pdf s) (int (length pages))
             = Inr (events (split_pdf env recv s) ! i)"
    using progress_value_chunk[OF assms(3,4,2)] run by (simp add: N_def)
  show ?thesis using run each run_10_4 unfolding N_def by simp
qed

text \<open>
  The run of a 10-page document with 4 pages per PDF sends three values.
\<close>

theorem C3_progress_events_witness:
  "length (events (split_pdf (pdf_env 10) never_cancels (job 4))) = 3"
proof -
  have h: "open_rb (pdf_env 10) (input_pdf_path (job 4)) = Inr (PdfDoc [0..<10])"
    "[0..<10] \<noteq> []" "1 \<le> pages_per_pdf (job 4)" "pages_per_pdf (job 4) < 2 ^ 1000"
    "\<not> cancel (job 4)"
    "\<forall>sent. \<not> never_cancels sent" "\<forall>path. open_wb (pdf_env 10) path = None"
    by (simp_all add: pdf_env_def job_def never_cancels_def)
  have n: "nat \<lceil>real (length [0..<10]) / real_of_int (pages_per_pdf (job 4))\<rceil> = 3"
    by (simp add: job_def ceiling_eq_iff)
  from C3_progress_events[OF h, unfolded n] show ?thesis by blast
qed

text \<open>
  C3 as stated gives every value as \<open>\<lfloor>(start_page + k) / T * 100\<rfloor>\<close>. For a 50-page
  document with \<open>k = 29\<close> that is 58 and 116; the doubles \<open>29 / 50\<close> and \<open>58 / 50\<close> times
  100 fall just below these integers, and the code sends 57 and 115.
\<close>

theorem C3_exact_floor_counterexample:
  "events (split_pdf (pdf_env 50) never_cancels (job 29))
   \<noteq> [\<lfloor>(0 + 29) / 50 * 100 :: real\<rfloor>, \<lfloor>(29 + 29) / 50 * 100 :: real\<rfloor>]"
  by (simp add: run_50_29)

text \<open>
  C4. The flag can change during a run only while the subscriber handles a progress value.
  If the subscriber sends \<open>cancel_signal\<close> on receiving the value of chunk \<open>i\<close> and not
  before (and the flag was clear at the start), the run returns normally, exactly the first
  \<open>i\<close> files are written, each with all the pages of its chunk, and \<open>i\<close> values have been
  sent: the flag is read once at the end of each loop body, after the file is written.
  The bound on the pages per PDF excludes the overflow of the division.
\<close>

theorem C4_cancel_after_chunk:
  assumes "open_rb env (input_pdf_path s) = Inr (PdfDoc pages)"
    and "1 \<le> pages_per_pdf s" and "pages_per_pdf s < 2 ^ 1000" and "\<not> cancel s"
    and "\<forall>path. open_wb env path = None"
    and "1 \<le> i" and "i \<le> nat \<lceil>real (length pages) / real_of_int (pages_per_pdf s)\<rceil>"
    and "\<forall>sent. length sent < i \<longrightarrow> \<not> recv sent"
    and "\<forall>sent. length sent = i \<longrightarrow> recv sent"
  shows "outcome (split_pdf env recv s) = Returned
       \<and> length (written (split_pdf env recv s)) = i
       \<and> written (split_pdf env recv s)
           = map (\<lambda>n. (output_directory_path s @ ''/'' @ str_int (int n + 1) @ ''.pdf'',
                       map ((!) pages)
                         [n * nat (pages_per_pdf s)
                          ..<min (n * nat (pages_per_pdf s) + nat (pages_per_pdf s)) (length pages)]))
               [0..<i]
       \<and> length (events (split_pdf env recv s)) = i"
  using split_pdf_stops[OF assms(1-8)] assms(9) by (simp add: chunk_as_range)

text \<open>
  Cancelling on the second value of a 10-page run with 4 pages per PDF leaves two files.
\<close>

theorem C4_cancel_after_chunk_witness:
  "outcome (split_pdf (pdf_env 10) (cancels_at 2) (job 4)) = Returned
   \<and> length (written (split_pdf (pdf_env 10) (cancels_at 2) (job 4))) = 2"
proof -
  have h: "open_rb (pdf_env 10) (input_pdf_path (job 4)) = Inr (PdfDoc [0..<10])"
    "1 \<le> pages_per_pdf (job 4)" "pages_per_pdf (job 4) < 2 ^ 1000"
    "\<not> cancel (job 4)" "\<forall>path. open_wb (pdf_env 10) path = None"
    by (simp_all add: pdf_env_def job_def)
  have i: "1 \<le> (2::nat)"
    "2 \<le> nat \<lceil>real (length [0..<10]) / real_of_int (pages_per_pdf (job 4))\<rceil>"
    by (simp_all add: job_def le_nat_iff le_ceiling_iff)
  have c: "\<forall>sent. length sent < 2 \<longrightarrow> \<not> cancels_at 2 sent"
    "\<forall>sent. length sent = 2 \<longrightarrow> cancels_at 2 sent"
    by (simp_all add: cancels_at_def)
  from C4_cancel_after_chunk[OF h i c] show ?thesis by blast
qed




text \<open>
  C7. The attribute is documented as the counter of the split PDFs generated and starts at
  0 in \<open>defaultAttributes\<close>, but \<open>split_pdf\<close> sets it to 1 before the loop and adds 1 for
  every file. After the run of a 10-page document with 4 pages per PDF three files are
  written and the counter is 4; after the same run cancelled on its second progress value
  two files are written and the counter is 3: one more than the number of files, each time.
\<close>

theorem C7_counter_after_run:
  "sub_pdf_num (state (split_pdf (pdf_env 10) never_cancels (job 4))) = 4
   \<and> length (written (split_pdf (pdf_env 10) never_cancels (job 4))) = 3
   \<and> sub_pdf_num (state (split_pdf (pdf_env 10) (cancels_at 2) (job 4))) = 3
   \<and> length (written (split_pdf (pdf_env 10) (cancels_at 2) (job 4))) = 2"
  by (simp add: run_10_4 run_10_4_cancel_2)

text \<open>
  C8. The archive is named after the input file's name up to its \<^emph>\<open>first\<close> dot, in the
  directory that holds the output directory: for the input \<open>/docs/report.v2.pdf\<close> and the
  output directory \<open>/docs/out\<close> it is \<open>/docs/report.zip\<close>, whatever the directory holds,
  and not \<open>/docs/report.v2.zip\<close>, the name without its extension. The entries are as
  specified: a directory holding \<open>1.pdf\<close> and \<open>2.pdf\<close> gives these two entries, and a
  file in a subdirectory is stored under its bare name.
\<close>

theorem C8_archive_name_first_dot:
  "fst (zip_pdf wasCanceled tree report_job) = ''/docs/report.zip''
   \<and> snd (zip_pdf not_cancelled [File ''1.pdf'' a, File ''2.pdf'' b] s)
       = [(''1.pdf'', a), (''2.pdf'', b)]
   \<and> snd (zip_pdf not_cancelled [File ''1.pdf'' a, Dir ''old'' [File ''2.pdf'' b]] s)
       = [(''1.pdf'', a), (''2.pdf'', b)]"
  by (simp add: zip_pdf_def report_job_def dirname_def basename_def split_dot_first_def
      rstrip_sep_def not_cancelled_def Let_def)

text \<open>
  C9. \<open>split_pdf\<close> never assigns \<open>False\<close> to the flag. Started with the flag set, on a
  document with at least one page, it writes the first chunk to \<open>1.pdf\<close>, sends one
  progress value and returns, whatever the number of pages, the pages per PDF (below the
  overflow bound) and the subscriber; the flag is still set afterwards, and
  \<open>defaultAttributes\<close> clears it.
\<close>

theorem C9_stale_cancel_one_chunk:
  assumes "open_rb env (input_pdf_path s) = Inr (PdfDoc pages)" and "pages \<noteq> []"
    and "1 \<le> pages_per_pdf s" and "pages_per_pdf s < 2 ^ 1000" and "cancel s"
    and "\<forall>path. open_wb env path = None"
  shows "outcome (split_pdf env recv s) = Returned
       \<and> written (split_pdf env recv s)
           = [(output_directory_path s @ ''/1.pdf'', take (nat (pages_per_pdf s)) pages)]
       \<and> length (events (split_pdf env recv s)) = 1
       \<and> cancel (state (split_pdf env recv s))
       \<and> \<not> cancel (defaultAttributes (state (split_pdf env recv s)))"
proof -
  define N where "N = nat \<lceil>real (length pages) / real_of_int (pages_per_pdf s)\<rceil>"
  define k where "k = pages_per_pdf s"
  define r0 :: "'a run" where
    "r0 = \<lparr>outcome = Returned, state = s\<lparr>sub_pdf_num := 1\<rparr>, written = [], events = []\<rparr>"
  have kpos: "0 < pages_per_pdf s" using assms(3) by simp
  have "N \<noteq> 0"
  proof
    assume "N = 0"
    with ceiling_chunks[OF kpos, of pages, folded N_def] assms(2) show False by simp
  qed
  then have N: "0 < N" by simp
  then have list: "map (\<lambda>i. int i * k) [0..<N] = 0 # map (\<lambda>i. int i * k) [Suc 0..<N]"
    by (simp add: upt_conv_Cons)
  from progress_value_chunk[OF assms(3,4,2), of 0] N
  obtain p where p: "progress_value 0 (pages_per_pdf (state r0)) (int (length pages)) = Inr p"
    by (auto simp: N_def r0_def)
  have ow: "open_wb env (output_pdf_path (state r0)) = None" using assms(6) by simp
  have k0: "0 < pages_per_pdf (state r0)" using kpos by (simp add: r0_def)
  have c0: "cancel (state r0)" using assms(5) by (simp add: r0_def)
  have "split_pdf env recv s = split_loop env recv pages (0 # map (\<lambda>i. int i * k) [Suc 0..<N]) r0"
    using split_pdf_loop[OF assms(1) kpos] list by (simp add: N_def k_def r0_def)
  also have "\<dots> = \<lparr>outcome = Returned,
        state = (if recv [p] then cancel_progress (s\<lparr>sub_pdf_num := 2\<rparr>) else s\<lparr>sub_pdf_num := 2\<rparr>),
        written = [(output_directory_path s @ ''/'' @ str_int 1 @ ''.pdf'',
                    take (nat (pages_per_pdf s)) pages)],
        events = [p]\<rparr>"
    using split_loop_step[OF ow p _ k0, of recv "map (\<lambda>i. int i * k) [Suc 0..<N]"] c0
    by (simp add: Let_def r0_def output_pdf_path_def)
  finally show ?thesis using assms(5)
    by (simp add: cancel_progress_def defaultAttributes_def str_int_def str_nat.simps
        digit_char_def)
qed

text \<open>
  A 10-page document, 4 pages per PDF, the flag left set by an earlier run.
\<close>

theorem C9_stale_cancel_one_chunk_witness:
  "length (written (split_pdf (pdf_env 10) never_cancels ((job 4)\<lparr>cancel := True\<rparr>))) = 1
   \<and> length (events (split_pdf (pdf_env 10) never_cancels ((job 4)\<lparr>cancel := True\<rparr>))) = 1"
proof -
  have h: "open_rb (pdf_env 10) (input_pdf_path ((job 4)\<lparr>cancel := True\<rparr>)) = Inr (PdfDoc [0..<10])"
    "[0..<10] \<noteq> []" "1 \<le> pages_per_pdf ((job 4)\<lparr>cancel := True\<rparr>)"
    "pages_per_pdf ((job 4)\<lparr>cancel := True\<rparr>) < 2 ^ 1000" "cancel ((job 4)\<lparr>cancel := True\<rparr>)"
    "\<forall>path. open_wb (pdf_env 10) path = None"
    by (simp_all add: pdf_env_def job_def)
  from C9_stale_cancel_one_chunk[OF h, of never_cancels] show ?thesis by simp
qed

text \<open>
  C6. Whatever state the splitter is in, \<open>defaultAttributes\<close> (the spec's reset) leaves
  every field at its default: both paths empty, one page per chunk, no compression,
  chunk counter 0, cancellation flag false.
\<close>

theorem C6_reset_restores_defaults:
  "defaultAttributes s =
     \<lparr>input_pdf_path = '''', output_directory_path = '''', pages_per_pdf = 1,
      compress_zip = False, sub_pdf_num = 0, cancel = False\<rparr>"
  by (simp add: defaultAttributes_def)

text \<open>
  C10. \<open>cancel_progress\<close> (the spec's cancel) sets the cancellation flag, calling it any
  number of times (at least once) gives the state that one call gives, and the five other
  fields keep their values.
\<close>

theorem C10_cancel_idempotent_frame:
  "cancel (cancel_progress s)
   \<and> (cancel_progress ^^ Suc n) s = cancel_progress s
   \<and> input_pdf_path (cancel_progress s) = input_pdf_path s
   \<and> output_directory_path (cancel_progress s) = output_directory_path s
   \<and> pages_per_pdf (cancel_progress s) = pages_per_pdf s
   \<and> compress_zip (cancel_progress s) = compress_zip s
   \<and> sub_pdf_num (cancel_progress s) = sub_pdf_num s"
proof -
  have "(cancel_progress ^^ Suc n) s = cancel_progress s"
    by (induction n) (simp_all add: cancel_progress_def)
  then show ?thesis
    by (simp add: cancel_progress_def)
qed

end
